theory Spec2Isabelle
  imports Main
begin

unbundle bit_operations_syntax

section \<open>The RS485 framing protocol of rs485.py\<close>

text \<open>
  The class \<open>RS485\<close> frames a byte sequence as
  \<open>STX, complemented nibbles of the data, ETX, complemented nibbles of the CRC\<close>
  and reassembles such packets from a byte stream. Python integers are unbounded, so every
  byte and every intermediate value is an \<open>int\<close>; the operators \<open>>>\<close>, \<open><<\<close>, \<open>&\<close>,
  \<open>|\<close> and \<open>^\<close> of the source are \<open>drop_bit\<close>, \<open>push_bit\<close>, \<open>AND\<close>, \<open>OR\<close> and \<open>XOR\<close> on
  \<open>int\<close>, which agree with Python on negative numbers as well.
\<close>

subsection \<open>Data\<close>

type_synonym byte = int

text \<open>A \<open>bytes\<close> or \<open>bytearray\<close> object holds integers of \<open>range(256)\<close> only.\<close>

definition is_byte :: "int \<Rightarrow> bool" where
  "is_byte b = (0 \<le> b \<and> b \<le> 255)"

definition is_bytes :: "int list \<Rightarrow> bool" where
  "is_bytes bs = list_all is_byte bs"

text \<open>The value of \<open>datetime.datetime.now()\<close>; the receiver only stores and returns it.\<close>

type_synonym datetime = nat

datatype State = waiting | receiveData | receiveCrc

datatype error = RuntimeError string | IndexError

text \<open>
  The attributes of an \<open>RS485\<close> object. A callback of the source is either \<open>None\<close> or a
  callable; the three flags say which callbacks were supplied. What the callbacks act on
  is the transport, kept outside the object: the byte sink is the list of the bytes
  written so far (oldest first), the byte source is the list of the bytes that
  \<open>fAvailable\<close> counts and \<open>fRead\<close> hands out (next first).
\<close>

record RS485 =
  callbackWrite :: bool
  callbackAvailable :: bool
  callbackRead :: bool
  packets :: "byte list list"
  errorCount :: int
  startTime :: "datetime option"
  data :: "byte list"
  state :: State
  firstNibble :: "int option"

definition STX :: int where
  "STX = 2"

definition ETX :: int where
  "ETX = 3"

definition MAX_LENGTH :: int where
  "MAX_LENGTH = 255"

subsection \<open>Construction and reset\<close>

definition reset :: "RS485 \<Rightarrow> RS485" where
  "reset self = self\<lparr>data := [], state := waiting, firstNibble := None\<rparr>"

definition RS485_init :: "bool \<Rightarrow> bool \<Rightarrow> bool \<Rightarrow> RS485" where
  "RS485_init fWrite fAvailable fRead =
     reset \<lparr>callbackWrite = fWrite, callbackAvailable = fAvailable, callbackRead = fRead,
            packets = [], errorCount = 0, startTime = None,
            data = [], state = waiting, firstNibble = None\<rparr>"

subsection \<open>The checksum\<close>

text \<open>
  The inner loop \<open>for i in range(8)\<close> of \<open>_crc8\<close>, with the number of iterations left as
  first argument; it works on the pair \<open>(crc, byte)\<close> and only \<open>crc\<close> survives it.
\<close>

fun crc8_bits :: "nat \<Rightarrow> int \<Rightarrow> int \<Rightarrow> int" where
  "crc8_bits 0 crc byte = crc"
| "crc8_bits (Suc n) crc byte =
     (let mix = (crc XOR byte) AND 1;
          crc = drop_bit 1 crc;
          crc = (if mix \<noteq> 0 then crc XOR 140 else crc);
          byte = drop_bit 1 byte
      in crc8_bits n crc byte)"

text \<open>The outer loop \<open>for byte in data\<close>.\<close>

fun crc8_loop :: "int \<Rightarrow> byte list \<Rightarrow> int" where
  "crc8_loop crc [] = crc"
| "crc8_loop crc (byte # rest) = crc8_loop (crc8_bits 8 crc byte) rest"

definition crc8 :: "byte list \<Rightarrow> int" where
  "crc8 dat = crc8_loop 0 dat"

subsection \<open>The reference CRC-8, from the words of the specification\<close>

text \<open>
  The eight bits of a byte, least significant first.
\<close>

definition bits_lsb_first :: "int \<Rightarrow> bool list" where
  "bits_lsb_first byte = map (bit byte) [0..<8]"

text \<open>
  One step: if (accumulator XOR current bit) has its least significant bit set, the
  accumulator is shifted right by one and XORed with 0x8C, otherwise only shifted right.
\<close>

definition ref_crc8_step :: "int \<Rightarrow> bool \<Rightarrow> int" where
  "ref_crc8_step acc b =
     (if odd (acc XOR of_bool b) then drop_bit 1 acc XOR 140 else drop_bit 1 acc)"

text \<open>The accumulator starts at 0 and consumes the bytes in order.\<close>

definition ref_crc8 :: "byte list \<Rightarrow> int" where
  "ref_crc8 dat = foldl (\<lambda>acc byte. foldl ref_crc8_step acc (bits_lsb_first byte)) 0 dat"

subsection \<open>Sending\<close>

text \<open>
  \<open>_sendComplemented\<close>: two calls of the write callback, each appending one byte to the
  sink.
\<close>

definition sendComplemented :: "int \<Rightarrow> byte list \<Rightarrow> byte list" where
  "sendComplemented byte sink =
     (let nibble = drop_bit 4 byte;
          sink = sink @ [push_bit 4 nibble OR (nibble XOR 15)];
          nibble = byte AND 15
      in sink @ [push_bit 4 nibble OR (nibble XOR 15)])"

text \<open>The loop \<open>for byte in data: self._sendComplemented(byte)\<close>.\<close>

fun sendData :: "byte list \<Rightarrow> byte list \<Rightarrow> byte list" where
  "sendData [] sink = sink"
| "sendData (byte # rest) sink = sendData rest (sendComplemented byte sink)"

text \<open>
  \<open>sendMsg\<close> raises \<open>RuntimeError\<close> before it writes anything when no write callback was
  supplied; otherwise the result is the sink after all writes.
\<close>

definition sendMsg :: "RS485 \<Rightarrow> byte list \<Rightarrow> byte list \<Rightarrow> error + byte list" where
  "sendMsg self dat sink =
     (if \<not> callbackWrite self then Inl (RuntimeError ''No fWrite supplied.'')
      else
        let sink = sink @ [STX];
            sink = sendData dat sink;
            sink = sink @ [ETX]
        in Inr (sendComplemented (crc8 dat) sink))"

subsection \<open>The wire format, from the words of the specification\<close>

text \<open>
  One nibble-encoded wire byte: the nibble in the high half, its complement in the low
  half.
\<close>

definition enc :: "int \<Rightarrow> int" where
  "enc nibble = push_bit 4 nibble OR (nibble XOR 15)"

text \<open>The two wire bytes of a byte: high nibble first.\<close>

definition enc_byte :: "int \<Rightarrow> byte list" where
  "enc_byte b = [enc (drop_bit 4 b), enc (b AND 15)]"

text \<open>
  Packet on the wire: \<open>STX, enc(b0_hi), enc(b0_lo), ..., ETX, enc(crc_hi), enc(crc_lo)\<close>.
\<close>

definition wire_packet :: "byte list \<Rightarrow> byte list" where
  "wire_packet payload =
     [2] @ concat (map enc_byte payload) @ [3] @ enc_byte (crc8 payload)"

text \<open>The sixteen legal wire bytes 0x0F, 0x1E, ..., 0xF0.\<close>

definition wire_alphabet :: "int set" where
  "wire_alphabet =
     {15, 30, 45, 60, 75, 90, 105, 120, 135, 150, 165, 180, 195, 210, 225, 240}"

subsection \<open>Receiving\<close>

text \<open>
  The test of \<open>update\<close> that a byte is in valid form, 4 bits followed by the same 4 bits
  complemented: \<open>(byte >> 4) == ((byte & 0x0F) ^ 0x0F)\<close>.
\<close>

definition validForm :: "int \<Rightarrow> bool" where
  "validForm byte = (drop_bit 4 byte = (byte AND 15) XOR 15)"

text \<open>
  The body of the \<open>while\<close> loop of \<open>update\<close> for one byte read from the source; every
  \<open>continue\<close> of the source ends a branch here. \<open>now\<close> is what \<open>datetime.datetime.now()\<close>
  returns in this iteration. \<open>bytearray.append\<close> raises \<open>ValueError\<close> outside \<open>range(256)\<close>;
  the byte appended here is assembled from two nibbles that passed the form test, and
  lemma \<open>assembled_is_byte\<close> below shows that it is in range.
\<close>

definition process_byte :: "datetime \<Rightarrow> int \<Rightarrow> RS485 \<Rightarrow> RS485" where
  "process_byte now byte self =
     (if byte = STX then
        (let self = self\<lparr>startTime := Some now\<rparr>;
             self = (if state self \<noteq> waiting
                     then self\<lparr>errorCount := errorCount self + 1\<rparr> else self);
             self = reset self
         in self\<lparr>state := receiveData\<rparr>)
      else if byte = ETX then
        (if firstNibble self = None then self\<lparr>state := receiveCrc\<rparr>
         else reset (self\<lparr>errorCount := errorCount self + 1\<rparr>))
      else if state self = waiting then self
      else if \<not> validForm byte then reset (self\<lparr>errorCount := errorCount self + 1\<rparr>)
      else
        (let byte = drop_bit 4 byte in
         case firstNibble self of
           None \<Rightarrow> self\<lparr>firstNibble := Some byte\<rparr>
         | Some first \<Rightarrow>
             (let byte = byte OR push_bit 4 first;
                  self = self\<lparr>firstNibble := None\<rparr>
              in if state self = receiveData then
                   (if int (length (data self)) < MAX_LENGTH
                    then self\<lparr>data := data self @ [byte]\<rparr>
                    else reset (self\<lparr>errorCount := errorCount self + 1\<rparr>))
                 else if crc8 (data self) \<noteq> byte
                 then reset (self\<lparr>errorCount := errorCount self + 1\<rparr>)
                 else self\<lparr>packets := packets self @ [data self], state := waiting\<rparr>)))"

text \<open>
  The loop \<open>while self._callbackAvailable() > 0\<close>: it reads the source until it is empty.
  \<open>clock k\<close> is the reading of the wall clock in iteration \<open>k\<close>.
\<close>

fun update_loop :: "(nat \<Rightarrow> datetime) \<Rightarrow> nat \<Rightarrow> byte list \<Rightarrow> RS485 \<Rightarrow> RS485" where
  "update_loop clock k [] self = self"
| "update_loop clock k (byte # source) self =
     update_loop clock (Suc k) source (process_byte (clock k) byte self)"

definition available :: "RS485 \<Rightarrow> bool" where
  "available self = (length (packets self) > 0)"

text \<open>
  \<open>update\<close> raises \<open>RuntimeError\<close> when a callback of the source is missing; otherwise it
  drains the source and returns \<open>available()\<close>, here together with the object after the
  call.
\<close>

definition update :: "(nat \<Rightarrow> datetime) \<Rightarrow> RS485 \<Rightarrow> byte list \<Rightarrow> error + (bool \<times> RS485)" where
  "update clock self source =
     (if \<not> callbackAvailable self then Inl (RuntimeError ''No fAvailable supplied.'')
      else if \<not> callbackRead self then Inl (RuntimeError ''No fRead supplied.'')
      else
        let self = update_loop clock 0 source self
        in Inr (available self, self))"

text \<open>\<open>getPacket\<close> is \<open>self._packets.pop(0)\<close>, an \<open>IndexError\<close> on the empty list.\<close>

definition getPacket :: "RS485 \<Rightarrow> error + (byte list \<times> RS485)" where
  "getPacket self =
     (case packets self of
        [] \<Rightarrow> Inl IndexError
      | p # rest \<Rightarrow> Inr (p, self\<lparr>packets := rest\<rparr>))"

definition getErrorCount :: "RS485 \<Rightarrow> int" where
  "getErrorCount self = errorCount self"

definition getPacketStartTime :: "RS485 \<Rightarrow> datetime option" where
  "getPacketStartTime self = startTime self"

definition isPacketStarted :: "RS485 \<Rightarrow> bool" where
  "isPacketStarted self = (state self \<noteq> waiting)"

text \<open>
  The objects a program can reach: a constructed object, and what the byte loop, \<open>reset\<close>
  and \<open>getPacket\<close> make of a reachable one. (\<open>sendMsg\<close> and the queries change no
  attribute.)
\<close>

inductive reachable :: "RS485 \<Rightarrow> bool" where
  reach_init: "reachable (RS485_init fWrite fAvailable fRead)"
| reach_byte: "reachable self \<Longrightarrow> reachable (process_byte now byte self)"
| reach_reset: "reachable self \<Longrightarrow> reachable (reset self)"
| reach_getPacket: "reachable self \<Longrightarrow> getPacket self = Inr (p, self') \<Longrightarrow> reachable self'"

text \<open>A clock for the examples: the reading in iteration \<open>k\<close> is \<open>1000 + k\<close>.\<close>

definition sampleClock :: "nat \<Rightarrow> datetime" where
  "sampleClock k = 1000 + k"

subsection \<open>A packet in progress, from the words of the specification\<close>

text \<open>
  Whether a packet has been started (a start marker was seen) and has not been completed
  or aborted since: a start marker starts a packet, a step that appends to the queue of
  completed packets completes it, and a step that counts an error aborts it.
\<close>

definition in_progress_step :: "int \<Rightarrow> RS485 \<Rightarrow> RS485 \<Rightarrow> bool \<Rightarrow> bool" where
  "in_progress_step byte before after started =
     (if byte = 2 then True
      else if length (packets before) < length (packets after) then False
      else if errorCount before < errorCount after then False
      else started)"

text \<open>
  The same along the bytes that the loop of \<open>update\<close> processes, next to the receiver.
\<close>

fun packet_in_progress :: "(nat \<Rightarrow> datetime) \<Rightarrow> nat \<Rightarrow> byte list \<Rightarrow> RS485 \<Rightarrow> bool \<Rightarrow> bool" where
  "packet_in_progress clock k [] self started = started"
| "packet_in_progress clock k (byte # source) self started =
     packet_in_progress clock (Suc k) source (process_byte (clock k) byte self)
       (in_progress_step byte self (process_byte (clock k) byte self) started)"

subsection \<open>Invariants\<close>

text \<open>
  A pending first nibble is a 4-bit value.
\<close>

definition nibble_pending :: "RS485 \<Rightarrow> bool" where
  "nibble_pending self =
     (case firstNibble self of None \<Rightarrow> True | Some n \<Rightarrow> 0 \<le> n \<and> n \<le> 15)"

section \<open>The checksum is the reference CRC-8\<close>

lemma crc8_bits_ref:
  "crc8_bits n crc (drop_bit k byte) = foldl ref_crc8_step crc (map (bit byte) [k..<k + n])"
proof (induction n arbitrary: crc k)
  case 0
  show ?case by simp
next
  case (Suc n)
  have mix: "((crc XOR drop_bit k byte) AND 1 \<noteq> 0) = odd (crc XOR of_bool (bit byte k))"
    by (simp add: and_one_eq bit_iff_odd_drop_bit even_xor_iff odd_iff_mod_2_eq_one [symmetric])
  have range: "[k..<k + Suc n] = k # [Suc k..<Suc k + n]"
    by (simp add: upt_rec)
  have "crc8_bits (Suc n) crc (drop_bit k byte) =
          crc8_bits n (ref_crc8_step crc (bit byte k)) (drop_bit (Suc k) byte)"
    using mix by (simp add: ref_crc8_step_def Let_def drop_bit_drop_bit)
  also have "\<dots> = foldl ref_crc8_step (ref_crc8_step crc (bit byte k))
                     (map (bit byte) [Suc k..<Suc k + n])"
    by (rule Suc.IH)
  finally show ?case
    by (simp only: range list.map foldl_Cons)
qed

lemma crc8_bits_8_ref:
  "crc8_bits 8 crc byte = foldl ref_crc8_step crc (bits_lsb_first byte)"
  using crc8_bits_ref [of 8 crc 0 byte] by (simp add: bits_lsb_first_def)

lemma crc8_loop_ref:
  "crc8_loop crc dat =
     foldl (\<lambda>acc byte. foldl ref_crc8_step acc (bits_lsb_first byte)) crc dat"
  by (induction dat arbitrary: crc) (simp_all add: crc8_bits_8_ref)

text \<open>
  C2: for every byte sequence \<open>_crc8\<close> returns the value of the reference CRC-8: the
  accumulator starts at 0, the eight bits of each byte are consumed least significant
  first, and a step shifts the accumulator right by one, XORing it with 0x8C when
  (accumulator XOR current bit) is odd.
\<close>

theorem crc8_is_reference: "crc8 dat = ref_crc8 dat"
  by (simp add: crc8_def ref_crc8_def crc8_loop_ref)

section \<open>The nibble code\<close>

lemma nibble_cases:
  "0 \<le> n \<Longrightarrow> n \<le> 15 \<Longrightarrow> n \<in> {0, 1, 2, 3, 4, 5, 6, 7, 8, 9, 10, 11, 12, 13, 14, 15::int}"
  by simp arith

lemma enc_nibble:
  assumes "0 \<le> n" "n \<le> 15"
  shows "enc n = 15 * n + 15"
  using nibble_cases [OF assms] by (auto simp: enc_def)

lemma enc_in_alphabet:
  assumes "0 \<le> n" "n \<le> 15"
  shows "enc n \<in> wire_alphabet"
  using nibble_cases [OF assms] by (auto simp: enc_def wire_alphabet_def)

lemma alphabet_valid:
  "w \<in> wire_alphabet \<Longrightarrow> validForm w"
  by (auto simp: wire_alphabet_def validForm_def)

lemma drop_bit_enc:
  assumes "0 \<le> n" "n \<le> 15"
  shows "drop_bit 4 (enc n) = n"
  using nibble_cases [OF assms] by (auto simp: enc_def)

lemma and15_range: "0 \<le> (b::int) AND 15" "b AND 15 \<le> 15"
  by (simp_all add: AND_upper2)

lemma drop4_range: "is_byte b \<Longrightarrow> 0 \<le> drop_bit 4 b \<and> drop_bit 4 b \<le> 15"
  by (simp add: is_byte_def drop_bit_eq_div) arith

lemma recombine: "(b AND 15) OR push_bit 4 (drop_bit 4 b) = (b::int)"
proof -
  have "b AND 15 = take_bit 4 b" by (simp add: take_bit_eq_mask mask_eq_exp_minus_1)
  then show ?thesis
    by (simp add: bit_eq_iff bit_or_iff bit_push_bit_iff bit_take_bit_iff bit_drop_bit_eq) 
      (metis add.commute le_add_diff_inverse2 not_le)
qed

lemma valid_in_alphabet: "validForm w \<Longrightarrow> w \<in> wire_alphabet"
proof -
  assume v: "validForm w"
  define m where "m = w AND 15"
  have m: "0 \<le> m" "m \<le> 15" by (simp_all add: m_def AND_upper2)
  have d: "drop_bit 4 w = m XOR 15" using v by (simp add: validForm_def m_def)
  have "w = m OR push_bit 4 (m XOR 15)" using recombine [of w] by (simp add: m_def d)
  then show ?thesis using nibble_cases [OF m] by (auto simp: wire_alphabet_def)
qed

section \<open>The receiver, byte by byte\<close>

lemma enc_not_marker:
  assumes "0 \<le> n" "n \<le> 15"
  shows "enc n \<noteq> STX" "enc n \<noteq> ETX"
  using enc_nibble [OF assms] assms by (simp_all add: STX_def ETX_def)

lemma enc_valid:
  assumes "0 \<le> n" "n \<le> 15"
  shows "validForm (enc n)"
  using assms by (simp add: alphabet_valid enc_in_alphabet)

lemma update_loop_append:
  "update_loop clock k (xs @ ys) self =
     update_loop clock (k + length xs) ys (update_loop clock k xs self)"
  by (induction xs arbitrary: k self) simp_all

lemma process_STX:
  "process_byte now 2 self =
     self\<lparr>startTime := Some now,
          errorCount := errorCount self + (if state self \<noteq> waiting then 1 else 0),
          data := [], state := receiveData, firstNibble := None\<rparr>"
  by (simp add: process_byte_def STX_def reset_def)

lemma process_first_nibble:
  assumes "0 \<le> n" "n \<le> 15" "state self \<noteq> waiting" "firstNibble self = None"
  shows "process_byte now (enc n) self = self\<lparr>firstNibble := Some n\<rparr>"
  using assms enc_not_marker [of n] enc_valid [of n] drop_bit_enc [of n]
  by (simp add: process_byte_def)

lemma process_second_nibble_data:
  assumes "0 \<le> n" "n \<le> 15" "state self = receiveData" "firstNibble self = Some h"
    "length (data self) < 255"
  shows "process_byte now (enc n) self =
           self\<lparr>firstNibble := None, data := data self @ [n OR push_bit 4 h]\<rparr>"
  using assms enc_not_marker [of n] enc_valid [of n] drop_bit_enc [of n]
  by (simp add: process_byte_def MAX_LENGTH_def)

lemma process_second_nibble_overflow:
  assumes "0 \<le> n" "n \<le> 15" "state self = receiveData" "firstNibble self = Some h"
    "length (data self) \<ge> 255"
  shows "process_byte now (enc n) self =
           self\<lparr>firstNibble := None, errorCount := errorCount self + 1, data := [],
                state := waiting\<rparr>"
  using assms enc_not_marker [of n] enc_valid [of n] drop_bit_enc [of n]
  by (simp add: process_byte_def MAX_LENGTH_def reset_def)

lemma process_second_nibble_crc:
  assumes "0 \<le> n" "n \<le> 15" "state self = receiveCrc" "firstNibble self = Some h"
    "crc8 (data self) = n OR push_bit 4 h"
  shows "process_byte now (enc n) self =
           self\<lparr>firstNibble := None, packets := packets self @ [data self],
                state := waiting\<rparr>"
  using assms enc_not_marker [of n] enc_valid [of n] drop_bit_enc [of n]
  by (simp add: process_byte_def)

lemma receive_data_byte:
  assumes "is_byte b" "state self = receiveData" "firstNibble self = None"
    "length (data self) < 255"
  shows "update_loop clock k (enc_byte b) self =
           self\<lparr>firstNibble := None, data := data self @ [b]\<rparr>"
proof -
  let ?h = "drop_bit 4 b" and ?l = "b AND 15"
  have h: "0 \<le> ?h" "?h \<le> 15" using drop4_range [OF assms(1)] by simp_all
  have l: "0 \<le> ?l" "?l \<le> 15" by (simp_all add: and15_range)
  have 1: "process_byte (clock k) (enc ?h) self = self\<lparr>firstNibble := Some ?h\<rparr>"
    using h assms by (simp add: process_first_nibble)
  have 2: "process_byte (clock (Suc k)) (enc ?l) (self\<lparr>firstNibble := Some ?h\<rparr>) =
             self\<lparr>firstNibble := None, data := data self @ [?l OR push_bit 4 ?h]\<rparr>"
    using l assms by (simp add: process_second_nibble_data)
  show ?thesis by (simp add: enc_byte_def 1 2 recombine)
qed

lemma receive_data:
  assumes "is_bytes xs" "state self = receiveData" "firstNibble self = None"
    "length (data self) + length xs \<le> 255"
  shows "update_loop clock k (concat (map enc_byte xs)) self =
           self\<lparr>firstNibble := None, data := data self @ xs\<rparr>"
  using assms
proof (induction xs arbitrary: k self)
  case Nil
  then show ?case by simp
next
  case (Cons b xs)
  have b: "is_byte b" and xs: "is_bytes xs" using Cons.prems(1) by (simp_all add: is_bytes_def)
  have len: "length (data self) < 255" using Cons.prems(4) by simp
  have step: "update_loop clock k (enc_byte b) self =
                self\<lparr>firstNibble := None, data := data self @ [b]\<rparr>"
    using b Cons.prems(2,3) len by (rule receive_data_byte)
  have "update_loop clock k (concat (map enc_byte (b # xs))) self =
          update_loop clock (k + length (enc_byte b)) (concat (map enc_byte xs))
            (self\<lparr>firstNibble := None, data := data self @ [b]\<rparr>)"
    by (simp add: update_loop_append step)
  also have "\<dots> = (self\<lparr>firstNibble := None, data := data self @ [b]\<rparr>)
                     \<lparr>firstNibble := None,
                      data := data (self\<lparr>firstNibble := None, data := data self @ [b]\<rparr>) @ xs\<rparr>"
    using xs Cons.prems(2,4) by (intro Cons.IH) simp_all
  finally show ?case by simp
qed

section \<open>Whole packets\<close>

lemma crc8_bits_range:
  "0 \<le> crc \<Longrightarrow> crc \<le> 255 \<Longrightarrow> 0 \<le> crc8_bits n crc byte \<and> crc8_bits n crc byte \<le> 255"
proof (induction n arbitrary: crc byte)
  case 0
  then show ?case by simp
next
  case (Suc n)
  let ?c = "drop_bit 1 crc"
  have c: "0 \<le> ?c" "?c < 2 ^ 8" using Suc.prems by (simp_all add: drop_bit_eq_div)
  have x: "0 \<le> ?c XOR 140" "?c XOR 140 \<le> 255"
    using c XOR_upper [of ?c 8 140] by simp_all
  show ?case
    using Suc.IH [of ?c] Suc.IH [of "?c XOR 140"] c x by (simp add: Let_def)
qed

lemma crc8_loop_range:
  "0 \<le> crc \<Longrightarrow> crc \<le> 255 \<Longrightarrow> 0 \<le> crc8_loop crc dat \<and> crc8_loop crc dat \<le> 255"
  by (induction dat arbitrary: crc) (simp_all add: crc8_bits_range)

lemma crc8_is_byte: "is_byte (crc8 dat)"
  using crc8_loop_range [of 0 dat] by (simp add: crc8_def is_byte_def)

lemma sendComplemented_enc: "sendComplemented b sink = sink @ enc_byte b"
  by (simp add: sendComplemented_def enc_byte_def enc_def Let_def)

lemma sendData_enc: "sendData dat sink = sink @ concat (map enc_byte dat)"
  by (induction dat arbitrary: sink) (simp_all add: sendComplemented_enc)

lemma sendMsg_wire:
  "callbackWrite self \<Longrightarrow> sendMsg self dat sink = Inr (sink @ wire_packet dat)"
  by (simp add: sendMsg_def wire_packet_def sendData_enc sendComplemented_enc STX_def ETX_def)

lemma length_wire_data: "length (concat (map enc_byte dat)) = 2 * length dat"
  by (induction dat) (simp_all add: enc_byte_def)

lemma length_wire_packet: "length (wire_packet dat) = 1 + 2 * length dat + 1 + 2"
  by (simp add: wire_packet_def length_wire_data enc_byte_def)

lemma process_ETX:
  "firstNibble self = None \<Longrightarrow> process_byte now 3 self = self\<lparr>state := receiveCrc\<rparr>"
  by (simp add: process_byte_def STX_def ETX_def)

lemma receive_crc_byte:
  assumes "state self = receiveCrc" "firstNibble self = None"
  shows "update_loop clock k (enc_byte (crc8 (data self))) self =
           self\<lparr>firstNibble := None, packets := packets self @ [data self], state := waiting\<rparr>"
proof -
  let ?b = "crc8 (data self)"
  let ?h = "drop_bit 4 ?b" and ?l = "?b AND 15"
  have h: "0 \<le> ?h" "?h \<le> 15" using drop4_range [OF crc8_is_byte] by simp_all
  have l: "0 \<le> ?l" "?l \<le> 15" by (simp_all add: and15_range)
  have 1: "process_byte (clock k) (enc ?h) self = self\<lparr>firstNibble := Some ?h\<rparr>"
    using h assms by (simp add: process_first_nibble)
  have 2: "process_byte (clock (Suc k)) (enc ?l) (self\<lparr>firstNibble := Some ?h\<rparr>) =
             self\<lparr>firstNibble := None, packets := packets self @ [data self], state := waiting\<rparr>"
    using l assms recombine [of ?b]
    by (subst process_second_nibble_crc [where h = ?h]) simp_all
  show ?thesis by (simp add: enc_byte_def 1 2)
qed

lemma receive_packet:
  assumes "is_bytes payload" "length payload \<le> 255"
  shows "update_loop clock k (wire_packet payload) self =
           self\<lparr>startTime := Some (clock k),
                errorCount := errorCount self + (if state self \<noteq> waiting then 1 else 0),
                data := payload, state := waiting, firstNibble := None,
                packets := packets self @ [payload]\<rparr>"
proof -
  let ?s1 = "self\<lparr>startTime := Some (clock k),
                errorCount := errorCount self + (if state self \<noteq> waiting then 1 else 0),
                data := [], state := receiveData, firstNibble := None\<rparr>"
  let ?s2 = "?s1\<lparr>firstNibble := None, data := data ?s1 @ payload\<rparr>"
  let ?s3 = "?s2\<lparr>state := receiveCrc\<rparr>"
  let ?n = "length (concat (map enc_byte payload))"
  have 1: "update_loop clock k [2] self = ?s1"
    by (simp add: process_STX)
  have 2: "update_loop clock (Suc k) (concat (map enc_byte payload)) ?s1 = ?s2"
    using assms by (intro receive_data) simp_all
  have 3: "update_loop clock (Suc k + ?n) [3] ?s2 = ?s3"
    by (simp add: process_ETX)
  have 4: "update_loop clock (Suc (Suc k + ?n)) (enc_byte (crc8 payload)) ?s3 =
             ?s3\<lparr>firstNibble := None, packets := packets ?s3 @ [data ?s3], state := waiting\<rparr>"
    using receive_crc_byte [of ?s3 clock "Suc (Suc k + ?n)"] by simp
  have "update_loop clock k (wire_packet payload) self =
          update_loop clock (Suc (Suc k + ?n)) (enc_byte (crc8 payload))
            (update_loop clock (Suc k + ?n) [3]
              (update_loop clock (Suc k) (concat (map enc_byte payload))
                (update_loop clock k [2] self)))"
    unfolding wire_packet_def update_loop_append by simp
  also have "\<dots> = ?s3\<lparr>firstNibble := None, packets := packets ?s3 @ [data ?s3], state := waiting\<rparr>"
    unfolding 1 2 3 4 ..
  finally show ?thesis by simp
qed

section \<open>Sending and the round trip\<close>

text \<open>
  The check value of CRC-8/MAXIM (polynomial 0x31 reflected, 0x8C) for the ASCII digits
  \<open>123456789\<close> is 0xA1.
\<close>

lemma crc8_check_value: "crc8 [49, 50, 51, 52, 53, 54, 55, 56, 57] = 161"
  by code_simp

text \<open>
  C4: with a write callback, \<open>sendMsg\<close> appends to the sink exactly the start marker 2,
  the two wire bytes of each payload byte in order, the end marker 3 and the two wire
  bytes of the CRC-8 of the payload: \<open>1 + 2 * len(payload) + 1 + 2\<close> bytes and nothing
  else. This holds for a payload of any length, so for every length from 0 to 255.
\<close>

theorem sendMsg_writes_packet:
  assumes "callbackWrite self"
  shows "sendMsg self payload sink = Inr (sink @ wire_packet payload) \<and>
         length (wire_packet payload) = 1 + 2 * length payload + 1 + 2"
  using assms by (simp add: sendMsg_wire length_wire_packet)

theorem sendMsg_writes_packet_witness:
  "callbackWrite (RS485_init True False False) \<and>
   sendMsg (RS485_init True False False) [72, 101, 106, 10] [] =
     Inr [2, 75, 135, 105, 90, 105, 165, 15, 165, 3, 165, 240] \<and>
   length [2, 75, 135, 105, 90, 105, 165, 15, 165, 3, 165, 240 :: int] = 1 + 2 * 4 + 1 + 2"
proof -
  have h: "callbackWrite (RS485_init True False False)"
    by (simp add: RS485_init_def reset_def)
  have w: "wire_packet [72, 101, 106, 10] = [2, 75, 135, 105, 90, 105, 165, 15, 165, 3, 165, 240]"
    by code_simp
  show ?thesis
    using h sendMsg_writes_packet [OF h, of "[72, 101, 106, 10]" "[]"] by (simp add: w)
qed

text \<open>
  C1: for every payload of 0 to 255 bytes, the bytes that \<open>sendMsg\<close> writes, put into
  the source of a freshly constructed receiver, make \<open>update\<close> return true with exactly
  that payload in the queue of completed packets; \<open>getPacket\<close> returns it unchanged and
  the error counter is what it was.
\<close>

theorem roundtrip:
  assumes "is_bytes payload" "length payload \<le> 255" "callbackWrite sender"
  shows "case sendMsg sender payload [] of
           Inl e \<Rightarrow> False
         | Inr wire \<Rightarrow>
             (case update clock (RS485_init fWrite True True) wire of
                Inl e \<Rightarrow> False
              | Inr (ready, receiver) \<Rightarrow>
                  ready \<and> packets receiver = [payload] \<and>
                  getPacket receiver = Inr (payload, receiver\<lparr>packets := []\<rparr>) \<and>
                  errorCount receiver = errorCount (RS485_init fWrite True True))"
proof -
  let ?rx = "RS485_init fWrite True True"
  have rx: "state ?rx = waiting" "packets ?rx = []" "callbackAvailable ?rx" "callbackRead ?rx"
    by (simp_all add: RS485_init_def reset_def)
  have tx: "sendMsg sender payload [] = Inr (wire_packet payload)"
    using assms(3) sendMsg_wire [of sender payload "[]"] by simp
  have loop: "update_loop clock 0 (wire_packet payload) ?rx =
                ?rx\<lparr>startTime := Some (clock 0), errorCount := errorCount ?rx + 0,
                     data := payload, state := waiting, firstNibble := None,
                     packets := [payload]\<rparr>"
    using receive_packet [OF assms(1,2), of clock 0 ?rx] rx by simp
  show ?thesis
    by (simp add: tx update_def rx(3,4) loop available_def getPacket_def)
qed

theorem roundtrip_witness:
  "is_bytes [0, 255, 2, 3] \<and> length [0, 255, 2, 3 :: int] \<le> 255 \<and>
   callbackWrite (RS485_init True False False) \<and>
   sendMsg (RS485_init True False False) [0, 255, 2, 3] [] =
     Inr [2, 15, 15, 240, 240, 15, 45, 15, 60, 3, 165, 30] \<and>
   update sampleClock (RS485_init False True True)
       [2, 15, 15, 240, 240, 15, 45, 15, 60, 3, 165, 30] =
     Inr (True, \<lparr>callbackWrite = False, callbackAvailable = True, callbackRead = True,
                 packets = [[0, 255, 2, 3]], errorCount = 0, startTime = Some 1000,
                 data = [0, 255, 2, 3], state = waiting, firstNibble = None\<rparr>) \<and>
   getPacket \<lparr>callbackWrite = False, callbackAvailable = True, callbackRead = True,
                 packets = [[0, 255, 2, 3]], errorCount = 0, startTime = Some 1000,
                 data = [0, 255, 2, 3], state = waiting, firstNibble = None\<rparr> =
     Inr ([0, 255, 2, 3], \<lparr>callbackWrite = False, callbackAvailable = True, callbackRead = True,
                 packets = [], errorCount = 0, startTime = Some 1000,
                 data = [0, 255, 2, 3], state = waiting, firstNibble = None\<rparr>)"
proof -
  have h1: "is_bytes [0, 255, 2, 3]" by (simp add: is_bytes_def is_byte_def)
  have h2: "length [0, 255, 2, 3 :: int] \<le> 255" by simp
  have h3: "callbackWrite (RS485_init True False False)" by (simp add: RS485_init_def reset_def)
  have tx: "sendMsg (RS485_init True False False) [0, 255, 2, 3] [] =
              Inr [2, 15, 15, 240, 240, 15, 45, 15, 60, 3, 165, 30]"
    by code_simp
  have rx: "update sampleClock (RS485_init False True True)
       [2, 15, 15, 240, 240, 15, 45, 15, 60, 3, 165, 30] =
     Inr (True, \<lparr>callbackWrite = False, callbackAvailable = True, callbackRead = True,
                 packets = [[0, 255, 2, 3]], errorCount = 0, startTime = Some 1000,
                 data = [0, 255, 2, 3], state = waiting, firstNibble = None\<rparr>)"
    by code_simp
  show ?thesis
    using h1 h2 h3 roundtrip [OF h1 h2 h3, where clock = sampleClock and fWrite = False]
    by (simp add: tx rx getPacket_def)
qed

text \<open>
  C10: the input 3, 0x0F, 0x0F holds no start marker, yet a freshly constructed receiver
  leaves \<open>waiting\<close> at the end marker (to \<open>receiveCrc\<close>) and \<open>update\<close> appends the empty
  packet to the queue.
\<close>

theorem end_marker_while_waiting:
  "STX \<notin> set [3, 15, 15] \<and>
   state (RS485_init fWrite True True) = waiting \<and>
   state (update_loop clock 0 [3] (RS485_init fWrite True True)) = receiveCrc \<and>
   update clock (RS485_init fWrite True True) [3, 15, 15] =
     Inr (True, (RS485_init fWrite True True)\<lparr>packets := [[]]\<rparr>)"
  by (simp add: STX_def ETX_def update_def RS485_init_def reset_def process_byte_def
      validForm_def crc8_def available_def)

section \<open>The alphabet of the nibble code\<close>

lemma nibble_and15:
  assumes "0 \<le> (n::int)" "n \<le> 15"
  shows "n AND 15 = n" "drop_bit 4 n = 0"
  using nibble_cases [OF assms] by auto

lemma alphabet_enc:
  "w \<in> wire_alphabet \<Longrightarrow> 0 \<le> drop_bit 4 w \<and> drop_bit 4 w \<le> 15 \<and> enc (drop_bit 4 w) = w"
  by (auto simp: wire_alphabet_def enc_def)

lemma sent_bytes_alphabet:
  "{w. \<exists>b. is_byte b \<and> w \<in> set (sendComplemented b [])} = wire_alphabet"
proof (intro set_eqI iffI)
  fix w
  assume "w \<in> {w. \<exists>b. is_byte b \<and> w \<in> set (sendComplemented b [])}"
  then obtain b where b: "is_byte b" and w: "w = enc (drop_bit 4 b) \<or> w = enc (b AND 15)"
    by (auto simp: sendComplemented_enc enc_byte_def)
  show "w \<in> wire_alphabet"
    using w drop4_range [OF b] and15_range [of b] by (auto intro: enc_in_alphabet)
next
  fix w
  assume a: "w \<in> wire_alphabet"
  let ?n = "drop_bit 4 w"
  have n: "0 \<le> ?n" "?n \<le> 15" "enc ?n = w" using alphabet_enc [OF a] by simp_all
  have "is_byte ?n" using n by (simp add: is_byte_def)
  moreover have "w \<in> set (sendComplemented ?n [])"
    using n by (simp add: sendComplemented_enc enc_byte_def nibble_and15)
  ultimately show "w \<in> {w. \<exists>b. is_byte b \<and> w \<in> set (sendComplemented b [])}"
    by blast
qed

lemma card_wire_alphabet: "card wire_alphabet = 16"
  by (simp add: wire_alphabet_def)

lemma markers_not_in_alphabet: "STX \<notin> wire_alphabet" "ETX \<notin> wire_alphabet"
  by (simp_all add: wire_alphabet_def STX_def ETX_def)

lemma sent_bytes_decode:
  assumes "is_byte b"
  shows "list_all validForm (sendComplemented b [])"
    and "map (drop_bit 4) (sendComplemented b []) = [drop_bit 4 b, b AND 15]"
  using drop4_range [OF assms] and15_range [of b]
  by (simp_all add: sendComplemented_enc enc_byte_def enc_valid drop_bit_enc)

text \<open>
  C3: the bytes that \<open>_sendComplemented\<close> writes for the bytes 0 to 255 are exactly the
  sixteen values 0x0F, 0x1E, ..., 0xF0; neither marker is among them. The form test of
  the receiver accepts the two bytes written for a byte, and shifting them right by 4
  gives back its high and its low nibble; every one of the sixteen values passes the test
  and is the code of the nibble in its high half. Every other integer, so every other byte
  value, fails the test.
\<close>

theorem nibble_codec:
  "{w. \<exists>b. is_byte b \<and> w \<in> set (sendComplemented b [])} = wire_alphabet \<and>
   card wire_alphabet = 16 \<and>
   STX \<notin> wire_alphabet \<and> ETX \<notin> wire_alphabet \<and>
   (\<forall>b. is_byte b \<longrightarrow>
      list_all validForm (sendComplemented b []) \<and>
      map (drop_bit 4) (sendComplemented b []) = [drop_bit 4 b, b AND 15]) \<and>
   (\<forall>w. w \<in> wire_alphabet \<longrightarrow>
      validForm w \<and> 0 \<le> drop_bit 4 w \<and> drop_bit 4 w \<le> 15 \<and>
      push_bit 4 (drop_bit 4 w) OR (drop_bit 4 w XOR 15) = w) \<and>
   (\<forall>w. w \<notin> wire_alphabet \<longrightarrow> \<not> validForm w)"
proof (intro conjI allI impI)
  show "{w. \<exists>b. is_byte b \<and> w \<in> set (sendComplemented b [])} = wire_alphabet"
    by (rule sent_bytes_alphabet)
  show "card wire_alphabet = 16" by (rule card_wire_alphabet)
  show "STX \<notin> wire_alphabet" "ETX \<notin> wire_alphabet" by (rule markers_not_in_alphabet)+
next
  fix b assume "is_byte b"
  then show "list_all validForm (sendComplemented b [])"
    and "map (drop_bit 4) (sendComplemented b []) = [drop_bit 4 b, b AND 15]"
    by (rule sent_bytes_decode)+
next
  fix w assume w: "w \<in> wire_alphabet"
  show "validForm w" using w by (rule alphabet_valid)
  show "0 \<le> drop_bit 4 w" "drop_bit 4 w \<le> 15"
    using alphabet_enc [OF w] by simp_all
  show "push_bit 4 (drop_bit 4 w) OR (drop_bit 4 w XOR 15) = w"
    using alphabet_enc [OF w] by (simp add: enc_def)
next
  fix w assume "w \<notin> wire_alphabet"
  then show "\<not> validForm w" using valid_in_alphabet by blast
qed

theorem nibble_codec_witness:
  "is_byte 165 \<and> sendComplemented 165 [] = [165, 90] \<and>
   list_all validForm [165, 90] \<and> map (drop_bit 4) [165, 90 :: int] = [10, 5] \<and>
   165 \<in> wire_alphabet \<and> validForm 165 \<and> drop_bit 4 (165 :: int) = 10 \<and>
   7 \<notin> wire_alphabet \<and> \<not> validForm 7"
proof -
  have h1: "is_byte 165" by (simp add: is_byte_def)
  have h2: "165 \<in> wire_alphabet" by (simp add: wire_alphabet_def)
  have h3: "7 \<notin> wire_alphabet" by (simp add: wire_alphabet_def)
  have s: "sendComplemented 165 [] = [165, 90]" by (simp add: sendComplemented_def)
  have 1: "list_all validForm (sendComplemented 165 []) \<and>
           map (drop_bit 4) (sendComplemented 165 []) = [drop_bit 4 165, 165 AND 15]"
    using nibble_codec h1 by blast
  have 2: "validForm 165" using nibble_codec h2 by blast
  have 3: "\<not> validForm 7" using nibble_codec h3 by blast
  show ?thesis using h1 h2 h3 1 2 3 by (simp add: s)
qed

section \<open>Invariants of the receiver\<close>

lemma assembled_is_byte:
  assumes "validForm byte" "0 \<le> first" "first \<le> 15"
  shows "is_byte (drop_bit 4 byte OR push_bit 4 first)"
proof -
  have "byte \<in> wire_alphabet" using assms(1) by (rule valid_in_alphabet)
  then have n: "0 \<le> drop_bit 4 byte" "drop_bit 4 byte \<le> 15"
    using alphabet_enc by simp_all
  have "0 \<le> push_bit 4 first" "push_bit 4 first < 2 ^ 8"
    using assms(2,3) by (simp_all add: push_bit_eq_mult)
  then show ?thesis
    using n OR_upper [of "drop_bit 4 byte" 8 "push_bit 4 first"]
    by (simp add: is_byte_def)
qed

lemma validForm_nibble: "validForm byte \<Longrightarrow> 0 \<le> drop_bit 4 byte \<and> drop_bit 4 byte \<le> 15"
  using alphabet_enc valid_in_alphabet by blast

lemma nibble_pending_process_byte:
  "nibble_pending self \<Longrightarrow> nibble_pending (process_byte now byte self)"
  using validForm_nibble [of byte]
  by (simp add: process_byte_def nibble_pending_def reset_def Let_def split: option.split)

lemma is_bytes_process_byte:
  assumes "nibble_pending self" "is_bytes (data self)"
  shows "is_bytes (data (process_byte now byte self))"
proof (cases "validForm byte")
  case True
  then show ?thesis
    using assms assembled_is_byte [of byte]
    by (auto simp: process_byte_def nibble_pending_def reset_def Let_def is_bytes_def
        split: option.split)
next
  case False
  then show ?thesis
    using assms
    by (simp add: process_byte_def reset_def Let_def is_bytes_def split: option.split)
qed

lemma reachable_bytes: "reachable self \<Longrightarrow> nibble_pending self \<and> is_bytes (data self)"
proof (induction rule: reachable.induct)
  case (reach_init fWrite fAvailable fRead)
  show ?case by (simp add: RS485_init_def reset_def nibble_pending_def is_bytes_def)
next
  case (reach_byte self now byte)
  then show ?case by (simp add: nibble_pending_process_byte is_bytes_process_byte)
next
  case (reach_reset self)
  show ?case by (simp add: reset_def nibble_pending_def is_bytes_def)
next
  case (reach_getPacket self p self')
  then show ?case by (auto simp: getPacket_def nibble_pending_def split: list.splits)
qed

lemma data_bound_process_byte:
  "length (data self) \<le> 255 \<Longrightarrow> length (data (process_byte now byte self)) \<le> 255"
  by (simp add: process_byte_def reset_def Let_def MAX_LENGTH_def split: option.split)

lemma reachable_data_bound: "reachable self \<Longrightarrow> length (data self) \<le> 255"
proof (induction rule: reachable.induct)
  case (reach_init fWrite fAvailable fRead)
  show ?case by (simp add: RS485_init_def reset_def)
next
  case (reach_byte self now byte)
  then show ?case by (simp add: data_bound_process_byte)
next
  case (reach_reset self)
  show ?case by (simp add: reset_def)
next
  case (reach_getPacket self p self')
  then show ?case by (auto simp: getPacket_def split: list.splits)
qed

lemma errorCount_process_byte: "errorCount self \<le> errorCount (process_byte now byte self)"
  by (simp add: process_byte_def reset_def Let_def split: option.split)

lemma errorCount_update_loop: "errorCount self \<le> errorCount (update_loop clock k source self)"
proof (induction source arbitrary: k self)
  case Nil
  show ?case by simp
next
  case (Cons b source)
  have "errorCount self \<le> errorCount (process_byte (clock k) b self)"
    by (rule errorCount_process_byte)
  also have "\<dots> \<le> errorCount (update_loop clock (Suc k) source (process_byte (clock k) b self))"
    by (rule Cons.IH)
  finally show ?case by simp
qed

section \<open>A packet in progress and the state\<close>

text \<open>
  A packet in progress means a state other than \<open>waiting\<close>, and the state \<open>receiveData\<close>
  means a packet in progress. The state \<open>receiveCrc\<close> does not: the branch for the end
  marker comes before the test for \<open>waiting\<close> and does not look at the state.
\<close>

lemma in_progress_step_not_waiting:
  assumes "started \<longrightarrow> state self \<noteq> waiting"
  shows "in_progress_step byte self (process_byte now byte self) started \<longrightarrow>
         state (process_byte now byte self) \<noteq> waiting"
  using assms
  by (auto simp: in_progress_step_def process_byte_def STX_def ETX_def reset_def Let_def
      split: option.split)

lemma in_progress_not_waiting:
  assumes "started \<longrightarrow> state self \<noteq> waiting"
    "packet_in_progress clock k source self started"
  shows "state (update_loop clock k source self) \<noteq> waiting"
  using assms
proof (induction source arbitrary: k self started)
  case Nil
  then show ?case by simp
next
  case (Cons b source)
  show ?case
    using Cons.IH [OF in_progress_step_not_waiting [OF Cons.prems(1)]] Cons.prems(2)
    by simp
qed

lemma receiveData_step_in_progress:
  assumes "state self = receiveData \<longrightarrow> started"
  shows "state (process_byte now byte self) = receiveData \<longrightarrow>
         in_progress_step byte self (process_byte now byte self) started"
  using assms
  by (auto simp: in_progress_step_def process_byte_def STX_def ETX_def reset_def Let_def
      split: option.split)

lemma receiveData_in_progress:
  assumes "state self = receiveData \<longrightarrow> started"
    "state (update_loop clock k source self) = receiveData"
  shows "packet_in_progress clock k source self started"
  using assms
proof (induction source arbitrary: k self started)
  case Nil
  then show ?case by simp
next
  case (Cons b source)
  show ?case
    using Cons.IH [OF receiveData_step_in_progress [OF Cons.prems(1)]] Cons.prems(2)
    by simp
qed

text \<open>
  C5: the claimed equivalence fails on the code. A freshly constructed receiver that
  processes the single byte 3 has seen no start marker, so no packet is in progress, yet
  its state is \<open>receiveCrc\<close> and \<open>isPacketStarted\<close> returns true.
\<close>

theorem end_marker_starts_without_packet:
  "STX \<notin> set [ETX] \<and>
   \<not> packet_in_progress clock 0 [ETX] (RS485_init fWrite fAvailable fRead) False \<and>
   state (update_loop clock 0 [ETX] (RS485_init fWrite fAvailable fRead)) = receiveCrc \<and>
   isPacketStarted (update_loop clock 0 [ETX] (RS485_init fWrite fAvailable fRead))"
  by (simp add: STX_def ETX_def RS485_init_def reset_def process_byte_def
      in_progress_step_def isPacketStarted_def)

section \<open>Completion, resynchronisation, overflow and reset\<close>

text \<open>
  C6, as the code has it: in \<open>receiveCrc\<close> with a pending nibble, a byte of valid form
  that completes the CRC-8 of the payload buffer appends the payload to the queue, sets
  the state to \<open>waiting\<close>, leaves the pending-nibble slot empty and does not count an
  error. The payload buffer is not cleared by this step: \<open>reset\<close> is not called here.
\<close>

theorem crc_match_completes:
  assumes "state self = receiveCrc" "firstNibble self = Some first" "validForm byte"
    "drop_bit 4 byte OR push_bit 4 first = crc8 (data self)"
  shows "packets (process_byte now byte self) = packets self @ [data self] \<and>
         state (process_byte now byte self) = waiting \<and>
         firstNibble (process_byte now byte self) = None \<and>
         errorCount (process_byte now byte self) = errorCount self \<and>
         data (process_byte now byte self) = data self"
proof -
  have "byte \<in> wire_alphabet" using assms(3) by (rule valid_in_alphabet)
  then have "byte \<noteq> STX" "byte \<noteq> ETX"
    using markers_not_in_alphabet by auto
  then show ?thesis using assms by (simp add: process_byte_def)
qed

theorem crc_match_completes_witness:
  "state \<lparr>callbackWrite = False, callbackAvailable = True, callbackRead = True,
      packets = [], errorCount = 0, startTime = Some 1000, data = [1],
      state = receiveCrc, firstNibble = Some 5\<rparr> = receiveCrc \<and>
   validForm 225 \<and>
   drop_bit 4 225 OR push_bit 4 5 = crc8 [1] \<and>
   packets (process_byte 1005 225
     \<lparr>callbackWrite = False, callbackAvailable = True, callbackRead = True,
      packets = [], errorCount = 0, startTime = Some 1000, data = [1],
      state = receiveCrc, firstNibble = Some 5\<rparr>) = [[1]] \<and>
   state (process_byte 1005 225
     \<lparr>callbackWrite = False, callbackAvailable = True, callbackRead = True,
      packets = [], errorCount = 0, startTime = Some 1000, data = [1],
      state = receiveCrc, firstNibble = Some 5\<rparr>) = waiting \<and>
   errorCount (process_byte 1005 225
     \<lparr>callbackWrite = False, callbackAvailable = True, callbackRead = True,
      packets = [], errorCount = 0, startTime = Some 1000, data = [1],
      state = receiveCrc, firstNibble = Some 5\<rparr>) = 0"
proof -
  let ?s = "\<lparr>callbackWrite = False, callbackAvailable = True, callbackRead = True,
      packets = [], errorCount = 0, startTime = Some 1000, data = [1],
      state = receiveCrc, firstNibble = Some 5\<rparr>"
  have h1: "state ?s = receiveCrc" by simp
  have h2: "firstNibble ?s = Some 5" by simp
  have h5: "validForm 225" by (simp add: validForm_def)
  have c: "crc8 [1] = 94" by code_simp
  have h6: "drop_bit 4 225 OR push_bit 4 5 = crc8 (data ?s)" by (simp add: c)
  show ?thesis
    using crc_match_completes [OF h1 h2 h5 h6, of 1005] h5 by (simp add: c)
qed

text \<open>
  The claim of C6 that the payload buffer is cleared fails: after the packet with payload
  \<open>[1]\<close> is completed, the buffer still holds \<open>[1]\<close>.
\<close>

theorem crc_match_keeps_buffer:
  "update_loop sampleClock 0 [2, 15, 30, 3, 90] (RS485_init False True True) =
     \<lparr>callbackWrite = False, callbackAvailable = True, callbackRead = True,
      packets = [], errorCount = 0, startTime = Some 1000, data = [1],
      state = receiveCrc, firstNibble = Some 5\<rparr> \<and>
   drop_bit 4 225 OR push_bit 4 5 = crc8 [1] \<and>
   process_byte 1005 225
     \<lparr>callbackWrite = False, callbackAvailable = True, callbackRead = True,
      packets = [], errorCount = 0, startTime = Some 1000, data = [1],
      state = receiveCrc, firstNibble = Some 5\<rparr> =
     \<lparr>callbackWrite = False, callbackAvailable = True, callbackRead = True,
      packets = [[1]], errorCount = 0, startTime = Some 1000, data = [1],
      state = waiting, firstNibble = None\<rparr> \<and>
   data (process_byte 1005 225
     \<lparr>callbackWrite = False, callbackAvailable = True, callbackRead = True,
      packets = [], errorCount = 0, startTime = Some 1000, data = [1],
      state = receiveCrc, firstNibble = Some 5\<rparr>) \<noteq> []"
proof -
  have c: "crc8 [1] = 94" by code_simp
  have 1: "update_loop sampleClock 0 [2, 15, 30, 3, 90] (RS485_init False True True) =
     \<lparr>callbackWrite = False, callbackAvailable = True, callbackRead = True,
      packets = [], errorCount = 0, startTime = Some 1000, data = [1],
      state = receiveCrc, firstNibble = Some 5\<rparr>"
    by code_simp
  show ?thesis
    unfolding 1 by (simp add: c process_byte_def STX_def ETX_def validForm_def)
qed

text \<open>
  C7: a start marker processed while the state is not \<open>waiting\<close> counts exactly one
  error and discards the payload buffer and the pending nibble; a well-formed packet that
  follows on the stream is appended to the queue and the receiver is back in \<open>waiting\<close>.
\<close>

theorem resynchronization:
  assumes "state self \<noteq> waiting" "is_bytes payload" "length payload \<le> 255"
  shows "errorCount (process_byte now STX self) = errorCount self + 1 \<and>
         data (process_byte now STX self) = [] \<and>
         firstNibble (process_byte now STX self) = None \<and>
         state (process_byte now STX self) = receiveData \<and>
         packets (process_byte now STX self) = packets self \<and>
         packets (update_loop clock k (wire_packet payload) (process_byte now STX self)) =
           packets self @ [payload] \<and>
         state (update_loop clock k (wire_packet payload) (process_byte now STX self)) = waiting"
proof -
  have stx: "process_byte now STX self =
     self\<lparr>startTime := Some now, errorCount := errorCount self + 1,
          data := [], state := receiveData, firstNibble := None\<rparr>"
    using assms(1) process_STX [of now self] by (simp add: STX_def)
  show ?thesis
    unfolding stx receive_packet [OF assms(2,3)] by simp
qed

theorem resynchronization_witness:
  "state \<lparr>callbackWrite = False, callbackAvailable = True, callbackRead = True,
      packets = [], errorCount = 0, startTime = Some 1000, data = [7],
      state = receiveData, firstNibble = Some 0\<rparr> \<noteq> waiting \<and>
   is_bytes [72, 101] \<and> length [72, 101 :: int] \<le> 255 \<and>
   errorCount (process_byte 1003 STX
     \<lparr>callbackWrite = False, callbackAvailable = True, callbackRead = True,
      packets = [], errorCount = 0, startTime = Some 1000, data = [7],
      state = receiveData, firstNibble = Some 0\<rparr>) = 1 \<and>
   data (process_byte 1003 STX
     \<lparr>callbackWrite = False, callbackAvailable = True, callbackRead = True,
      packets = [], errorCount = 0, startTime = Some 1000, data = [7],
      state = receiveData, firstNibble = Some 0\<rparr>) = [] \<and>
   packets (update_loop sampleClock 4 (wire_packet [72, 101]) (process_byte 1003 STX
     \<lparr>callbackWrite = False, callbackAvailable = True, callbackRead = True,
      packets = [], errorCount = 0, startTime = Some 1000, data = [7],
      state = receiveData, firstNibble = Some 0\<rparr>)) = [[72, 101]]"
proof -
  let ?s = "\<lparr>callbackWrite = False, callbackAvailable = True, callbackRead = True,
      packets = [], errorCount = 0, startTime = Some 1000, data = [7],
      state = receiveData, firstNibble = Some 0\<rparr>"
  have h1: "state ?s \<noteq> waiting" by simp
  have h2: "is_bytes [72, 101]" by (simp add: is_bytes_def is_byte_def)
  have h3: "length [72, 101 :: int] \<le> 255" by simp
  show ?thesis
    using h2 resynchronization [OF h1 h2 h3, of 1003 sampleClock 4] by simp
qed

text \<open>
  The start marker of the packet that follows counts an error of its own when it arrives
  right after the spurious one, since the state is \<open>receiveData\<close> then; a packet whose
  own start marker interrupts the packet in progress counts one error in all.
\<close>

lemma resynchronization_error_total:
  assumes "state self \<noteq> waiting" "is_bytes payload" "length payload \<le> 255"
  shows "errorCount (update_loop clock k (STX # wire_packet payload) self) = errorCount self + 2"
  using assms(1) by (simp add: STX_def process_STX receive_packet [OF assms(2,3)])

lemma interrupting_packet:
  assumes "state self \<noteq> waiting" "is_bytes payload" "length payload \<le> 255"
  shows "errorCount (update_loop clock k (wire_packet payload) self) = errorCount self + 1"
    and "packets (update_loop clock k (wire_packet payload) self) = packets self @ [payload]"
  using assms(1) by (simp_all add: receive_packet [OF assms(2,3)])

lemma process_waiting_ignores:
  assumes "0 \<le> n" "n \<le> 15" "state self = waiting"
  shows "process_byte now (enc n) self = self"
  using assms enc_not_marker [of n] by (simp add: process_byte_def)

lemma waiting_ignores_byte:
  assumes "is_byte b" "state self = waiting"
  shows "update_loop clock k (enc_byte b) self = self"
  using assms drop4_range [of b] and15_range [of b]
  by (simp add: enc_byte_def process_waiting_ignores)

lemma waiting_ignores_data:
  assumes "is_bytes xs" "state self = waiting"
  shows "update_loop clock k (concat (map enc_byte xs)) self = self"
  using assms
proof (induction xs arbitrary: k)
  case Nil
  show ?case by simp
next
  case (Cons b xs)
  then show ?case
    by (simp add: is_bytes_def update_loop_append waiting_ignores_byte)
qed

lemma overflow_byte:
  assumes "is_byte b" "state self = receiveData" "firstNibble self = None"
    "length (data self) \<ge> 255"
  shows "update_loop clock k (enc_byte b) self =
           self\<lparr>firstNibble := None, errorCount := errorCount self + 1, data := [],
                state := waiting\<rparr>"
proof -
  let ?h = "drop_bit 4 b" and ?l = "b AND 15"
  have h: "0 \<le> ?h" "?h \<le> 15" using drop4_range [OF assms(1)] by simp_all
  have l: "0 \<le> ?l" "?l \<le> 15" by (simp_all add: and15_range)
  have 1: "process_byte (clock k) (enc ?h) self = self\<lparr>firstNibble := Some ?h\<rparr>"
    using h assms by (simp add: process_first_nibble)
  have 2: "process_byte (clock (Suc k)) (enc ?l) (self\<lparr>firstNibble := Some ?h\<rparr>) =
             self\<lparr>firstNibble := None, errorCount := errorCount self + 1, data := [],
                  state := waiting\<rparr>"
    using l assms by (simp add: process_second_nibble_overflow)
  show ?thesis by (simp add: enc_byte_def 1 2)
qed

lemma is_bytes_append: "is_bytes (xs @ ys) = (is_bytes xs \<and> is_bytes ys)"
  by (simp add: is_bytes_def)

lemma overflow_data:
  assumes "is_bytes payload" "length payload > 255" "state self = receiveData"
    "firstNibble self = None" "data self = []"
  shows "update_loop clock k (concat (map enc_byte payload)) self =
           self\<lparr>firstNibble := None, errorCount := errorCount self + 1, data := [],
                state := waiting\<rparr>"
proof -
  let ?a = "take 255 payload" and ?b = "payload ! 255" and ?c = "drop 256 payload"
  let ?s1 = "self\<lparr>firstNibble := None, data := data self @ ?a\<rparr>"
  let ?s2 = "?s1\<lparr>firstNibble := None, errorCount := errorCount ?s1 + 1, data := [],
                state := waiting\<rparr>"
  have split: "payload = ?a @ ?b # ?c"
    using assms(2) id_take_nth_drop [of 255 payload] by simp
  have bytes: "is_bytes ?a" "is_byte ?b" "is_bytes ?c"
    using assms(1) is_bytes_append [of ?a "?b # ?c"] split by (simp_all add: is_bytes_def)
  have la: "length ?a = 255" using assms(2) by simp
  have 1: "update_loop clock k (concat (map enc_byte ?a)) self = ?s1"
    using bytes(1) assms(3,4,5) la by (intro receive_data) simp_all
  have 2: "update_loop clock j (enc_byte ?b) ?s1 = ?s2" for j
    using bytes(2) assms(3,5) la by (intro overflow_byte) simp_all
  have 3: "update_loop clock j (concat (map enc_byte ?c)) ?s2 = ?s2" for j
    using bytes(3) by (intro waiting_ignores_data) simp_all
  have "concat (map enc_byte payload) =
          concat (map enc_byte ?a) @ enc_byte ?b @ concat (map enc_byte ?c)"
    using split by (metis concat.simps(2) concat_append list.simps(9) map_append)
  then have "update_loop clock k (concat (map enc_byte payload)) self = ?s2"
    by (simp only: update_loop_append 1 2 3)
  then show ?thesis using assms(5) by simp
qed

text \<open>
  C8: in every reachable receiver the payload buffer holds at most 255 bytes; and a start
  marker followed by the wire bytes of more than 255 data bytes, with no end marker,
  counts the overflow as one error (after the one a start marker counts outside
  \<open>waiting\<close>), leaves the buffer empty, the state \<open>waiting\<close> and the queue as it was.
\<close>

theorem buffer_bound_and_overflow:
  assumes "reachable self" "is_bytes payload" "length payload > 255"
  shows "length (data self) \<le> 255 \<and>
         errorCount (update_loop clock k (STX # concat (map enc_byte payload)) self) =
           errorCount self + (if state self \<noteq> waiting then 1 else 0) + 1 \<and>
         data (update_loop clock k (STX # concat (map enc_byte payload)) self) = [] \<and>
         state (update_loop clock k (STX # concat (map enc_byte payload)) self) = waiting \<and>
         packets (update_loop clock k (STX # concat (map enc_byte payload)) self) = packets self"
proof -
  let ?s1 = "self\<lparr>startTime := Some (clock k),
          errorCount := errorCount self + (if state self \<noteq> waiting then 1 else 0),
          data := [], state := receiveData, firstNibble := None\<rparr>"
  have 1: "process_byte (clock k) STX self = ?s1"
    using process_STX [of "clock k" self] by (simp add: STX_def)
  have 2: "update_loop clock (Suc k) (concat (map enc_byte payload)) ?s1 =
             ?s1\<lparr>firstNibble := None, errorCount := errorCount ?s1 + 1, data := [],
                state := waiting\<rparr>"
    using assms(2,3) by (intro overflow_data) simp_all
  show ?thesis
    using reachable_data_bound [OF assms(1)] by (simp add: 1 2)
qed

theorem buffer_bound_and_overflow_witness:
  "reachable (RS485_init False True True) \<and> is_bytes (replicate 256 7) \<and>
   length (replicate 256 (7 :: int)) > 255 \<and>
   length (data (RS485_init False True True)) \<le> 255 \<and>
   errorCount (update_loop sampleClock 0 (STX # concat (map enc_byte (replicate 256 7)))
     (RS485_init False True True)) = 1 \<and>
   data (update_loop sampleClock 0 (STX # concat (map enc_byte (replicate 256 7)))
     (RS485_init False True True)) = [] \<and>
   state (update_loop sampleClock 0 (STX # concat (map enc_byte (replicate 256 7)))
     (RS485_init False True True)) = waiting \<and>
   packets (update_loop sampleClock 0 (STX # concat (map enc_byte (replicate 256 7)))
     (RS485_init False True True)) = []"
proof -
  have h1: "reachable (RS485_init False True True)" by (rule reach_init)
  have h2: "is_bytes (replicate 256 7)" by (simp add: is_bytes_def is_byte_def list_all_iff)
  have h3: "length (replicate 256 (7 :: int)) > 255" by simp
  have i: "state (RS485_init False True True) = waiting"
    "errorCount (RS485_init False True True) = 0" "packets (RS485_init False True True) = []"
    by (simp_all add: RS485_init_def reset_def)
  show ?thesis
    using h1 h2 buffer_bound_and_overflow [OF h1 h2 h3, of sampleClock 0] by (simp add: i)
qed

text \<open>
  C9: \<open>reset\<close> clears the payload buffer and the pending nibble and sets the state to
  \<open>waiting\<close>; it leaves the error counter, the queue and the start time alone. No
  operation lowers the error counter: not a processed byte, not \<open>update\<close>, not
  \<open>getPacket\<close>; only the constructor sets it, to 0.
\<close>

theorem reset_frame:
  "data (reset self) = [] \<and> firstNibble (reset self) = None \<and> state (reset self) = waiting \<and>
   errorCount (reset self) = errorCount self \<and> packets (reset self) = packets self \<and>
   startTime (reset self) = startTime self \<and>
   errorCount self \<le> errorCount (process_byte now byte self) \<and>
   (\<forall>ready self'. update clock self source = Inr (ready, self') \<longrightarrow>
      errorCount self \<le> errorCount self') \<and>
   (\<forall>p self'. getPacket self = Inr (p, self') \<longrightarrow> errorCount self' = errorCount self) \<and>
   errorCount (RS485_init fWrite fAvailable fRead) = 0"
proof (intro conjI allI impI)
  fix ready self'
  assume "update clock self source = Inr (ready, self')"
  then have "self' = update_loop clock 0 source self"
    by (simp add: update_def Let_def split: if_splits)
  then show "errorCount self \<le> errorCount self'"
    by (simp add: errorCount_update_loop)
next
  fix p self'
  assume "getPacket self = Inr (p, self')"
  then show "errorCount self' = errorCount self"
    by (auto simp: getPacket_def split: list.splits)
qed (simp_all add: reset_def errorCount_process_byte RS485_init_def)

theorem reset_frame_witness:
  "getPacket \<lparr>callbackWrite = False, callbackAvailable = True, callbackRead = True,
      packets = [[1]], errorCount = 4, startTime = Some 1000, data = [1],
      state = waiting, firstNibble = None\<rparr> =
     Inr ([1], \<lparr>callbackWrite = False, callbackAvailable = True, callbackRead = True,
      packets = [], errorCount = 4, startTime = Some 1000, data = [1],
      state = waiting, firstNibble = None\<rparr>) \<and>
   update sampleClock \<lparr>callbackWrite = False, callbackAvailable = True, callbackRead = True,
      packets = [[1]], errorCount = 4, startTime = Some 1000, data = [1],
      state = waiting, firstNibble = None\<rparr> [3, 15, 7] =
     Inr (True, \<lparr>callbackWrite = False, callbackAvailable = True, callbackRead = True,
      packets = [[1]], errorCount = 5, startTime = Some 1000, data = [],
      state = waiting, firstNibble = None\<rparr>) \<and>
   (4 :: int) \<le> 5 \<and>
   errorCount (reset \<lparr>callbackWrite = False, callbackAvailable = True, callbackRead = True,
      packets = [[1]], errorCount = 4, startTime = Some 1000, data = [1],
      state = receiveCrc, firstNibble = Some 3\<rparr>) = 4"
proof -
  let ?s = "\<lparr>callbackWrite = False, callbackAvailable = True, callbackRead = True,
      packets = [[1]], errorCount = 4, startTime = Some 1000, data = [1],
      state = waiting, firstNibble = None\<rparr>"
  let ?r = "\<lparr>callbackWrite = False, callbackAvailable = True, callbackRead = True,
      packets = [[1]], errorCount = 4, startTime = Some 1000, data = [1],
      state = receiveCrc, firstNibble = Some 3\<rparr>"
  have g: "getPacket ?s = Inr ([1], ?s\<lparr>packets := []\<rparr>)"
    by (simp add: getPacket_def)
  have u: "update sampleClock ?s [3, 15, 7] =
             Inr (True, ?s\<lparr>errorCount := 5, data := []\<rparr>)"
    by (simp add: update_def process_byte_def STX_def ETX_def validForm_def reset_def
        available_def)
  have 1: "errorCount (?s\<lparr>packets := []\<rparr>) = errorCount ?s"
    using reset_frame [of ?s] g by blast
  have 2: "errorCount ?s \<le> errorCount (?s\<lparr>errorCount := 5, data := []\<rparr>)"
    using reset_frame [of ?s _ _ sampleClock "[3, 15, 7]"] u by blast
  have 3: "errorCount (reset ?r) = errorCount ?r"
    using reset_frame [of ?r] by blast
  show ?thesis using g u 1 2 3 by simp
qed

end
